theory Spec2Isabelle
  imports Main
begin

section \<open>The DPLL solver of DPLL.js, as a shallow embedding\<close>

text \<open>
  The source is one recursive arrow function \<open>dpll(clauses, assignment)\<close> over a
  process-wide object \<open>memo\<close>. Clauses are arrays of integers, the assignment is a
  plain object whose property keys are the variable indices and whose values are
  booleans, and the result is either such an object or \<open>null\<close>.

  Literals are modelled as unbounded integers (the source's numbers are doubles; the
  model is exact for every literal below \<open>2^53\<close> in absolute value).
\<close>

subsection \<open>Data\<close>

type_synonym literal = int
type_synonym clause = "literal list"
type_synonym formula = "clause list"

text \<open>
  The property keys the code ever writes to an assignment object: the decimal string of
  \<open>Math.abs(lit)\<close>, the string \<open>"undefined"\<close> (when the destructuring
  \<open>const [variable] = ...\<close> finds no element), and the string \<open>"NaN"\<close>
  (\<open>Math.abs(undefined)\<close>, should \<open>unitLit\<close> ever be undefined).
\<close>

datatype pkey = Num nat | Undefined | NaN

text \<open>
  An assignment object is the list of its own properties in the order in which the
  language enumerates them (\<open>OrdinaryOwnPropertyKeys\<close>): first the keys that are array
  indices (canonical numeric strings below \<open>2^32 - 1\<close>) in ascending numeric order, then
  all other string keys in the order of their creation. The values are booleans, as the
  source documents and as every binding the solver adds is.
\<close>

type_synonym assignment = "(pkey \<times> bool) list"

text \<open>The value returned by \<open>dpll\<close>: \<open>null\<close> or an assignment object.\<close>

datatype outcome = Unsat | Sat assignment

text \<open>
  The object \<open>memo\<close>: a string-keyed dictionary; \<open>None\<close> is the \<open>undefined\<close> read from
  an absent key, \<open>Some Unsat\<close> is a stored \<open>null\<close>.
\<close>

type_synonym memo = "string \<rightharpoonup> outcome"

subsection \<open>Objects: property read, spread with one computed key, JSON.stringify\<close>

definition array_index :: "pkey \<Rightarrow> bool" where
  "array_index k = (case k of Num n \<Rightarrow> n < 2 ^ 32 - 1 | _ \<Rightarrow> False)"

definition index_of :: "pkey \<Rightarrow> nat" where
  "index_of k = (case k of Num n \<Rightarrow> n | _ \<Rightarrow> 0)"

text \<open>\<open>assignment[k]\<close>; \<open>None\<close> is \<open>undefined\<close>.\<close>

definition get :: "assignment \<Rightarrow> pkey \<Rightarrow> bool option" where
  "get a k = map_of a k"

text \<open>
  \<open>{ ...assignment, [k]: v }\<close>: the properties are copied in enumeration order, then
  \<open>k\<close> is defined. An existing key keeps its place and takes the new value; a new
  array index is enumerated at its numeric position, before every key that is not an
  array index; any other new key is enumerated last.
\<close>

fun spread_set :: "assignment \<Rightarrow> pkey \<Rightarrow> bool \<Rightarrow> assignment" where
  "spread_set [] k v = [(k, v)]"
| "spread_set ((k', w) # ps) k v =
     (if k' = k then (k, v) # ps
      else if array_index k \<and> (\<not> array_index k' \<or> index_of k < index_of k')
        then (k, v) # (k', w) # ps
      else (k', w) # spread_set ps k v)"

definition digit_char :: "nat \<Rightarrow> char" where
  "digit_char d = ''0123456789'' ! d"

text \<open>The decimal numeral of a non-negative integer, as \<open>String(n)\<close> gives it.\<close>

fun digits :: "nat \<Rightarrow> string" where
  "digits n = (if n < 10 then [digit_char n] else digits (n div 10) @ [digit_char (n mod 10)])"

declare digits.simps [simp del]

definition key_string :: "pkey \<Rightarrow> string" where
  "key_string k = (case k of Num n \<Rightarrow> digits n | Undefined \<Rightarrow> ''undefined'' | NaN \<Rightarrow> ''NaN'')"

definition dquote :: char where
  "dquote = CHR 0x22"

definition member :: "pkey \<times> bool \<Rightarrow> string" where
  "member p = dquote # key_string (fst p) @ dquote # CHR '':'' # (if snd p then ''true'' else ''false'')"

fun members :: "assignment \<Rightarrow> string" where
  "members [] = ''}''"
| "members (p # ps) = CHR '','' # member p @ members ps"

text \<open>\<open>JSON.stringify(assignment)\<close> for an object with boolean values.\<close>

fun stringify :: "assignment \<Rightarrow> string" where
  "stringify [] = ''{}''"
| "stringify (p # ps) = CHR ''{'' # member p @ members ps"

subsection \<open>The tests of one call\<close>

text \<open>\<open>Math.abs(lit)\<close> used as a property key.\<close>

definition var_key :: "literal \<Rightarrow> pkey" where
  "var_key lit = Num (nat \<bar>lit\<bar>)"

text \<open>\<open>assignment[Math.abs(lit)] === (lit > 0)\<close>\<close>

definition lit_true :: "assignment \<Rightarrow> literal \<Rightarrow> bool" where
  "lit_true a lit = (get a (var_key lit) = Some (0 < lit))"

text \<open>\<open>assignment[Math.abs(lit)] === (lit < 0)\<close>\<close>

definition lit_false :: "assignment \<Rightarrow> literal \<Rightarrow> bool" where
  "lit_false a lit = (get a (var_key lit) = Some (lit < 0))"

text \<open>\<open>assignment[Math.abs(lit)] === undefined\<close>\<close>

definition lit_unassigned :: "assignment \<Rightarrow> literal \<Rightarrow> bool" where
  "lit_unassigned a lit = (get a (var_key lit) = None)"

text \<open>\<open>clauses.every(clause => clause.some(lit => ...))\<close>\<close>

definition all_satisfied :: "formula \<Rightarrow> assignment \<Rightarrow> bool" where
  "all_satisfied cs a = list_all (\<lambda>c. list_ex (lit_true a) c) cs"

text \<open>\<open>clauses.some(clause => clause.every(lit => ...))\<close>\<close>

definition some_falsified :: "formula \<Rightarrow> assignment \<Rightarrow> bool" where
  "some_falsified cs a = list_ex (\<lambda>c. list_all (lit_false a) c) cs"

text \<open>\<open>clauses.find(clause => clause.filter(lit => ...).length === 1)\<close>\<close>

definition unitClause :: "formula \<Rightarrow> assignment \<Rightarrow> clause option" where
  "unitClause cs a = find (\<lambda>c. length (filter (lit_unassigned a) c) = 1) cs"

text \<open>\<open>unitClause.find(lit => ...)\<close>\<close>

definition unitLit :: "clause \<Rightarrow> assignment \<Rightarrow> literal option" where
  "unitLit c a = find (lit_unassigned a) c"

text \<open>
  \<open>const [variable] = clauses.flat().map(Math.abs).filter(v => assignment[v] === undefined)\<close>:
  the first element, or \<open>undefined\<close> when the array is empty; used as a property key.
\<close>

definition variable :: "formula \<Rightarrow> assignment \<Rightarrow> pkey" where
  "variable cs a =
     (case filter (\<lambda>v. get a (Num v) = None) (map (\<lambda>lit. nat \<bar>lit\<bar>) (concat cs)) of
        [] \<Rightarrow> Undefined
      | v # _ \<Rightarrow> Num v)"

subsection \<open>The solver\<close>

text \<open>
  \<open>dpll\<close> with the global \<open>memo\<close> passed in and returned. The first argument bounds the
  depth of the call stack: a call that needs a deeper stack yields \<open>None\<close> (the
  engine's stack-overflow \<open>RangeError\<close>, which nothing in the source catches).
  In \<open>r1 || r2\<close> an object is truthy and \<open>null\<close> is falsy.
\<close>

fun dpll :: "nat \<Rightarrow> formula \<Rightarrow> assignment \<Rightarrow> memo \<Rightarrow> (outcome \<times> memo) option" where
  "dpll 0 cs a m = None"
| "dpll (Suc n) cs a m =
     (let key = stringify a in
      case m key of
        Some r \<Rightarrow> Some (r, m)
      | None \<Rightarrow>
          if all_satisfied cs a then Some (Sat a, m(key \<mapsto> Sat a))
          else if some_falsified cs a then Some (Unsat, m(key \<mapsto> Unsat))
          else
            (case unitClause cs a of
               Some c \<Rightarrow>
                 (case unitLit c a of
                    Some lit \<Rightarrow> dpll n cs (spread_set a (var_key lit) (0 < lit)) m
                  | None \<Rightarrow> dpll n cs (spread_set a NaN False) m)
             | None \<Rightarrow>
                 (case dpll n cs (spread_set a (variable cs a) True) m of
                    None \<Rightarrow> None
                  | Some (Sat r, m1) \<Rightarrow> Some (Sat r, m1(key \<mapsto> Sat r))
                  | Some (Unsat, m1) \<Rightarrow>
                      (case dpll n cs (spread_set a (variable cs a) False) m1 of
                         None \<Rightarrow> None
                       | Some (r2, m2) \<Rightarrow> Some (r2, m2(key \<mapsto> r2))))))"

text \<open>The clause set at the top of the source file.\<close>

definition clauses :: formula where
  "clauses = [[1, -3, 4], [-1, 2], [-2, 3], [-4]]"

subsection \<open>Notions used to state the claims\<close>

text \<open>
  The distinct variables of the formula that the assignment leaves unbound; its length
  bounds the depth of the recursion.
\<close>

definition unbound :: "formula \<Rightarrow> assignment \<Rightarrow> nat list" where
  "unbound cs a =
     remdups (filter (\<lambda>v. get a (Num v) = None) (map (\<lambda>lit. nat \<bar>lit\<bar>) (concat cs)))"

text \<open>
  The caches that earlier calls on the same clause list can leave behind, starting from
  the empty cache: each call that returned hands its cache to the next.
\<close>

inductive populated :: "formula \<Rightarrow> memo \<Rightarrow> bool" for cs :: formula where
  fresh: "populated cs Map.empty"
| call: "populated cs m \<Longrightarrow> dpll n cs a m = Some (res, m') \<Longrightarrow> populated cs m'"

text \<open>
  The object obtained from \<open>{}\<close> by adding the bindings one at a time, in the given
  order, each with \<open>{ ...assignment, [k]: v }\<close>, as the search does along a path.
\<close>

definition build :: "(pkey \<times> bool) list \<Rightarrow> assignment" where
  "build bs = foldl (\<lambda>a (k, v). spread_set a k v) [] bs"

subsection \<open>Auxiliary notions for the proofs\<close>

text \<open>A cache whose stored assignments all satisfy the formula.\<close>

definition memo_sound :: "formula \<Rightarrow> memo \<Rightarrow> bool" where
  "memo_sound cs m = (\<forall>k r. m k = Some (Sat r) \<longrightarrow> all_satisfied cs r)"

text \<open>The same search without the cache; the depth bound is as in \<open>dpll\<close>.\<close>

fun search :: "nat \<Rightarrow> formula \<Rightarrow> assignment \<Rightarrow> outcome option" where
  "search 0 cs a = None"
| "search (Suc n) cs a =
     (if all_satisfied cs a then Some (Sat a)
      else if some_falsified cs a then Some Unsat
      else
        (case unitClause cs a of
           Some c \<Rightarrow>
             (case unitLit c a of
                Some lit \<Rightarrow> search n cs (spread_set a (var_key lit) (0 < lit))
              | None \<Rightarrow> search n cs (spread_set a NaN False))
         | None \<Rightarrow>
             (case search n cs (spread_set a (variable cs a) True) of
                None \<Rightarrow> None
              | Some (Sat r) \<Rightarrow> Some (Sat r)
              | Some Unsat \<Rightarrow> search n cs (spread_set a (variable cs a) False))))"

text \<open>A cache whose entries are all results of the cache-free search on the formula.\<close>

definition memo_consistent :: "formula \<Rightarrow> memo \<Rightarrow> bool" where
  "memo_consistent cs m = (\<forall>a r. m (stringify a) = Some r \<longrightarrow> (\<exists>n. search n cs a = Some r))"

text \<open>
  An object all of whose keys are array indices, enumerated in ascending numeric order.
\<close>

definition index_ordered :: "assignment \<Rightarrow> bool" where
  "index_ordered a = (sorted_wrt (<) (map (index_of \<circ> fst) a) \<and> (\<forall>k \<in> fst ` set a. array_index k))"

section \<open>Properties of one call\<close>

declare dpll.simps [simp del]

lemma get_spread_set: "get (spread_set a k v) k' = (if k' = k then Some v else get a k')"
  by (induction a k v rule: spread_set.induct) (auto simp: get_def)

lemma dpll_Suc_cases [consumes 1, case_names hit sat conflict unit unit_nan branch_sat branch_unsat]:
  assumes "dpll (Suc n) cs a m = Some (res, m')"
  obtains
    (hit) "m (stringify a) = Some res" "m' = m"
  | (sat) "m (stringify a) = None" "all_satisfied cs a" "res = Sat a" "m' = m(stringify a \<mapsto> Sat a)"
  | (conflict) "m (stringify a) = None" "\<not> all_satisfied cs a" "some_falsified cs a"
      "res = Unsat" "m' = m(stringify a \<mapsto> Unsat)"
  | (unit) c lit where "m (stringify a) = None" "\<not> all_satisfied cs a" "\<not> some_falsified cs a"
      "unitClause cs a = Some c" "unitLit c a = Some lit"
      "dpll n cs (spread_set a (var_key lit) (0 < lit)) m = Some (res, m')"
  | (unit_nan) c where "m (stringify a) = None" "\<not> all_satisfied cs a" "\<not> some_falsified cs a"
      "unitClause cs a = Some c" "unitLit c a = None"
      "dpll n cs (spread_set a NaN False) m = Some (res, m')"
  | (branch_sat) r m1 where "m (stringify a) = None" "\<not> all_satisfied cs a" "\<not> some_falsified cs a"
      "unitClause cs a = None"
      "dpll n cs (spread_set a (variable cs a) True) m = Some (Sat r, m1)"
      "res = Sat r" "m' = m1(stringify a \<mapsto> Sat r)"
  | (branch_unsat) m1 m2 where "m (stringify a) = None" "\<not> all_satisfied cs a" "\<not> some_falsified cs a"
      "unitClause cs a = None"
      "dpll n cs (spread_set a (variable cs a) True) m = Some (Unsat, m1)"
      "dpll n cs (spread_set a (variable cs a) False) m1 = Some (res, m2)"
      "m' = m2(stringify a \<mapsto> res)"
  using assms
  by (auto simp: dpll.simps(2) Let_def split: option.splits if_splits outcome.splits prod.splits)

lemma dpll_sound_inv:
  "memo_sound cs m \<Longrightarrow> dpll n cs a m = Some (res, m') \<Longrightarrow>
     memo_sound cs m' \<and> (\<forall>r. res = Sat r \<longrightarrow> all_satisfied cs r)"
proof (induction n arbitrary: a m res m')
  case 0
  then show ?case by (simp add: dpll.simps)
next
  case (Suc n)
  from Suc.prems(2) show ?case
  proof (cases rule: dpll_Suc_cases)
    case hit
    with Suc.prems(1) show ?thesis by (auto simp: memo_sound_def)
  next
    case sat
    with Suc.prems(1) show ?thesis by (auto simp: memo_sound_def)
  next
    case conflict
    with Suc.prems(1) show ?thesis by (auto simp: memo_sound_def)
  next
    case (unit c lit)
    from Suc.IH[OF Suc.prems(1) unit(6)] show ?thesis .
  next
    case (unit_nan c)
    from Suc.IH[OF Suc.prems(1) unit_nan(6)] show ?thesis .
  next
    case (branch_sat r m1)
    from Suc.IH[OF Suc.prems(1) branch_sat(5)]
    have "memo_sound cs m1" "all_satisfied cs r" by auto
    with branch_sat show ?thesis by (auto simp: memo_sound_def)
  next
    case (branch_unsat m1 m2)
    from Suc.IH[OF Suc.prems(1) branch_unsat(5)] have "memo_sound cs m1" by auto
    from Suc.IH[OF this branch_unsat(6)]
    have "memo_sound cs m2" "\<forall>r. res = Sat r \<longrightarrow> all_satisfied cs r" by auto
    with branch_unsat show ?thesis by (auto simp: memo_sound_def)
  qed
qed

lemma dpll_hit: "m (stringify a) = Some r \<Longrightarrow> dpll (Suc n) cs a m = Some (r, m)"
  by (simp add: dpll.simps(2) Let_def)

lemma dpll_sat: "m (stringify a) = None \<Longrightarrow> all_satisfied cs a \<Longrightarrow>
   dpll (Suc n) cs a m = Some (Sat a, m(stringify a \<mapsto> Sat a))"
  by (simp add: dpll.simps(2) Let_def)

lemma dpll_conflict: "m (stringify a) = None \<Longrightarrow> \<not> all_satisfied cs a \<Longrightarrow> some_falsified cs a \<Longrightarrow>
   dpll (Suc n) cs a m = Some (Unsat, m(stringify a \<mapsto> Unsat))"
  by (simp add: dpll.simps(2) Let_def)

lemma dpll_unit: "m (stringify a) = None \<Longrightarrow> \<not> all_satisfied cs a \<Longrightarrow> \<not> some_falsified cs a \<Longrightarrow>
   unitClause cs a = Some c \<Longrightarrow> unitLit c a = Some lit \<Longrightarrow>
   dpll (Suc n) cs a m = dpll n cs (spread_set a (var_key lit) (0 < lit)) m"
  by (simp add: dpll.simps(2) Let_def)

lemma dpll_unit_nan: "m (stringify a) = None \<Longrightarrow> \<not> all_satisfied cs a \<Longrightarrow> \<not> some_falsified cs a \<Longrightarrow>
   unitClause cs a = Some c \<Longrightarrow> unitLit c a = None \<Longrightarrow>
   dpll (Suc n) cs a m = dpll n cs (spread_set a NaN False) m"
  by (simp add: dpll.simps(2) Let_def)

lemma dpll_branch: "m (stringify a) = None \<Longrightarrow> \<not> all_satisfied cs a \<Longrightarrow> \<not> some_falsified cs a \<Longrightarrow>
   unitClause cs a = None \<Longrightarrow>
   dpll (Suc n) cs a m =
     (case dpll n cs (spread_set a (variable cs a) True) m of
        None \<Rightarrow> None
      | Some (Sat r, m1) \<Rightarrow> Some (Sat r, m1(stringify a \<mapsto> Sat r))
      | Some (Unsat, m1) \<Rightarrow>
          (case dpll n cs (spread_set a (variable cs a) False) m1 of
             None \<Rightarrow> None
           | Some (r2, m2) \<Rightarrow> Some (r2, m2(stringify a \<mapsto> r2))))"
  by (simp add: dpll.simps(2) Let_def)

lemma dpll_Suc_mono': "dpll n cs a m = Some (res, m') \<Longrightarrow> dpll (Suc n) cs a m = Some (res, m')"
proof (induction n arbitrary: a m res m')
  case 0
  then show ?case by (simp add: dpll.simps)
next
  case (Suc n)
  from Suc.prems show ?case
  proof (cases rule: dpll_Suc_cases)
    case hit
    show ?thesis unfolding hit(2) using hit(1) by (rule dpll_hit)
  next
    case sat
    show ?thesis unfolding sat(3,4) using sat(1,2) by (rule dpll_sat)
  next
    case conflict
    show ?thesis unfolding conflict(4,5) using conflict(1-3) by (rule dpll_conflict)
  next
    case (unit c lit)
    show ?thesis unfolding dpll_unit[where m=m, OF unit(1-5)] by (rule Suc.IH[OF unit(6)])
  next
    case (unit_nan c)
    show ?thesis unfolding dpll_unit_nan[where m=m, OF unit_nan(1-5)] by (rule Suc.IH[OF unit_nan(6)])
  next
    case (branch_sat r m1)
    show ?thesis
      unfolding dpll_branch[where m=m, OF branch_sat(1-4)] Suc.IH[OF branch_sat(5)] branch_sat(6,7) by (simp add: fun_upd_def)
  next
    case (branch_unsat m1 m2)
    show ?thesis
      unfolding dpll_branch[where m=m, OF branch_unsat(1-4)] Suc.IH[OF branch_unsat(5)]
        branch_unsat(7) by (simp add: Suc.IH[OF branch_unsat(6)] fun_upd_def)
  qed
qed

lemma dpll_Suc_mono: "dpll n cs a m = Some x \<Longrightarrow> dpll (Suc n) cs a m = Some x"
  by (cases x) (simp add: dpll_Suc_mono')

lemma dpll_add_mono: "dpll n cs a m = Some x \<Longrightarrow> dpll (n + k) cs a m = Some x"
  by (induction k) (simp_all add: dpll_Suc_mono)

lemma dpll_mono: "dpll n cs a m = Some x \<Longrightarrow> n \<le> n' \<Longrightarrow> dpll n' cs a m = Some x"
  using dpll_add_mono[of n cs a m x "n' - n"] by simp

lemma set_unbound: "set (unbound cs a) = {v. (\<exists>lit \<in> set (concat cs). v = nat \<bar>lit\<bar>) \<and> get a (Num v) = None}"
  by (auto simp: unbound_def)

lemma length_unbound: "length (unbound cs a) = card (set (unbound cs a))"
  unfolding unbound_def by (simp add: length_remdups_card_conv)

lemma unbound_spread_set:
  assumes "v \<in> set (unbound cs a)"
  shows "length (unbound cs (spread_set a (Num v) b)) < length (unbound cs a)"
proof -
  have "set (unbound cs (spread_set a (Num v) b)) = set (unbound cs a) - {v}"
    by (auto simp: set_unbound get_spread_set)
  moreover from assms have "card (set (unbound cs a) - {v}) < card (set (unbound cs a))"
    by (intro card_Diff1_less) simp_all
  ultimately show ?thesis
    unfolding length_unbound by simp
qed

lemma unitClause_unitLit:
  assumes "unitClause cs a = Some c"
  shows "\<exists>lit. unitLit c a = Some lit \<and> lit \<in> set c \<and> lit_unassigned a lit \<and> c \<in> set cs"
proof -
  from assms have c: "c \<in> set cs" "length (filter (lit_unassigned a) c) = 1"
    by (auto simp: unitClause_def find_Some_iff)
  from c(2) have "filter (lit_unassigned a) c \<noteq> []" by auto
  then obtain lit where "lit \<in> set c" "lit_unassigned a lit"
    by (auto simp: filter_empty_conv)
  then have "unitLit c a \<noteq> None" by (auto simp: unitLit_def find_None_iff)
  then obtain l where l: "unitLit c a = Some l" by auto
  then have "l \<in> set c" "lit_unassigned a l"
    by (auto simp: unitLit_def find_Some_iff)
  with l c(1) show ?thesis by auto
qed

lemma lit_unassigned_unbound:
  "lit \<in> set c \<Longrightarrow> c \<in> set cs \<Longrightarrow> lit_unassigned a lit \<Longrightarrow> nat \<bar>lit\<bar> \<in> set (unbound cs a)"
  by (auto simp: set_unbound lit_unassigned_def var_key_def)

lemma lit_three_valued:
  "lit \<noteq> 0 \<Longrightarrow> \<not> lit_true a lit \<Longrightarrow> \<not> lit_false a lit \<Longrightarrow> lit_unassigned a lit"
  by (cases "get a (var_key lit)") (auto simp: lit_true_def lit_false_def lit_unassigned_def)

lemma variable_unbound:
  assumes "0 \<notin> set (concat cs)" "\<not> all_satisfied cs a" "\<not> some_falsified cs a"
  shows "\<exists>v. variable cs a = Num v \<and> v \<in> set (unbound cs a)"
proof -
  from assms(2) obtain c where c: "c \<in> set cs" "\<forall>lit \<in> set c. \<not> lit_true a lit"
    by (auto simp: all_satisfied_def list_all_iff list_ex_iff)
  from assms(3) c(1) obtain lit where lit: "lit \<in> set c" "\<not> lit_false a lit"
    by (auto simp: some_falsified_def list_all_iff list_ex_iff)
  from assms(1) c(1) lit(1) have "lit \<noteq> 0" by auto
  with c(2) lit have "lit_unassigned a lit" by (auto intro: lit_three_valued)
  with lit(1) c(1) have "nat \<bar>lit\<bar> \<in> set (filter (\<lambda>v. get a (Num v) = None) (map (\<lambda>lit. nat \<bar>lit\<bar>) (concat cs)))"
    by (auto simp: lit_unassigned_def var_key_def)
  then obtain v vs where vs: "filter (\<lambda>v. get a (Num v) = None) (map (\<lambda>lit. nat \<bar>lit\<bar>) (concat cs)) = v # vs"
    by (cases "filter (\<lambda>v. get a (Num v) = None) (map (\<lambda>lit. nat \<bar>lit\<bar>) (concat cs))") auto
  then have "v \<in> set (filter (\<lambda>v. get a (Num v) = None) (map (\<lambda>lit. nat \<bar>lit\<bar>) (concat cs)))"
    by simp
  then have "v \<in> set (unbound cs a)" by (simp add: unbound_def)
  moreover from vs have "variable cs a = Num v" by (simp add: variable_def)
  ultimately show ?thesis by auto
qed

lemma length_spread_set_new: "get a k = None \<Longrightarrow> length (spread_set a k v) = Suc (length a)"
  by (induction a k v rule: spread_set.induct) (auto simp: get_def split: if_splits)

lemma dpll_total:
  assumes nz: "0 \<notin> set (concat cs)"
  shows "length (unbound cs a) < n \<Longrightarrow> \<exists>res m'. dpll n cs a m = Some (res, m')"
proof (induction n arbitrary: a m)
  case 0
  then show ?case by simp
next
  case (Suc n)
  show ?case
  proof (cases "m (stringify a)")
    case (Some r)
    then show ?thesis by (simp add: dpll_hit)
  next
    case None
    show ?thesis
    proof (cases "all_satisfied cs a")
      case True
      with None show ?thesis by (simp add: dpll_sat)
    next
      case nsat: False
      show ?thesis
      proof (cases "some_falsified cs a")
        case True
        with None nsat show ?thesis by (simp add: dpll_conflict)
      next
        case nconf: False
        show ?thesis
        proof (cases "unitClause cs a")
          case (Some c)
          from unitClause_unitLit[OF Some] obtain lit where
            lit: "unitLit c a = Some lit" "lit \<in> set c" "lit_unassigned a lit" "c \<in> set cs"
            by auto
          have "length (unbound cs (spread_set a (var_key lit) (0 < lit))) < length (unbound cs a)"
            unfolding var_key_def
            by (rule unbound_spread_set) (rule lit_unassigned_unbound[OF lit(2,4,3)])
          with Suc.prems have "length (unbound cs (spread_set a (var_key lit) (0 < lit))) < n"
            by simp
          from Suc.IH[OF this]
          show ?thesis unfolding dpll_unit[where m=m, OF None nsat nconf Some lit(1)] .
        next
          case noUnit: None
          from variable_unbound[OF nz nsat nconf] obtain v where
            v: "variable cs a = Num v" "v \<in> set (unbound cs a)" by auto
          have less: "length (unbound cs (spread_set a (Num v) b)) < n" for b
            using unbound_spread_set[OF v(2), of b] Suc.prems by simp
          from Suc.IH[OF less] obtain r1 m1 where
            r1: "dpll n cs (spread_set a (Num v) True) m = Some (r1, m1)" by blast
          from Suc.IH[OF less] obtain r2 m2 where
            r2: "dpll n cs (spread_set a (Num v) False) m1 = Some (r2, m2)" by blast
          show ?thesis
            unfolding dpll_branch[where m=m, OF None nsat nconf noUnit] v(1)
            by (cases r1) (simp_all add: r1 r2)
        qed
      qed
    qed
  qed
qed

lemma dpll_returns:
  assumes "0 \<notin> set (concat cs)"
  shows "\<exists>res m'. \<forall>n > length (unbound cs a). dpll n cs a m = Some (res, m')"
proof -
  from dpll_total[OF assms, of a "Suc (length (unbound cs a))" m]
  obtain res m' where r: "dpll (Suc (length (unbound cs a))) cs a m = Some (res, m')" by auto
  have "dpll n cs a m = Some (res, m')" if "n > length (unbound cs a)" for n
    using dpll_mono[OF r, of n] that by simp
  then show ?thesis by blast
qed

lemmas dpll_numeral = dpll.simps(2)[where n = "pred_numeral k", folded numeral_eq_Suc] for k

lemmas dpll_eval = dpll_numeral dpll.simps(2)[of 0] dpll.simps(1) Let_def
  all_satisfied_def some_falsified_def unitClause_def unitLit_def variable_def
  lit_true_def lit_false_def lit_unassigned_def get_def var_key_def array_index_def index_of_def
  member_def key_string_def digits.simps digit_char_def dquote_def

lemma dpll_stores_outcome:
  "dpll n cs a m = Some (res, m') \<Longrightarrow> \<exists>a'. m' (stringify a') = Some res"
proof (induction n arbitrary: a m res m')
  case 0
  then show ?case by (simp add: dpll.simps)
next
  case (Suc n)
  from Suc.prems show ?case
  proof (cases rule: dpll_Suc_cases)
    case hit
    then show ?thesis by auto
  next
    case sat
    then show ?thesis by auto
  next
    case conflict
    then show ?thesis by auto
  next
    case (unit c lit)
    from Suc.IH[OF unit(6)] show ?thesis .
  next
    case (unit_nan c)
    from Suc.IH[OF unit_nan(6)] show ?thesis .
  next
    case (branch_sat r m1)
    then show ?thesis by auto
  next
    case (branch_unsat m1 m2)
    then show ?thesis by auto
  qed
qed

section \<open>The cache key\<close>

lemma digit_char_inj: "d < 10 \<Longrightarrow> e < 10 \<Longrightarrow> digit_char d = digit_char e \<Longrightarrow> d = e"
  unfolding digit_char_def
  by (subst (asm) nth_eq_iff_index_eq) simp_all

lemma digit_char_in: "d < 10 \<Longrightarrow> digit_char d \<in> set ''0123456789''"
  unfolding digit_char_def by (rule nth_mem) simp

lemma digits_nonempty: "digits n \<noteq> []"
  by (subst digits.simps) simp

lemma set_digits: "set (digits n) \<subseteq> set ''0123456789''"
proof (induction n rule: digits.induct)
  case (1 n)
  show ?case
  proof (cases "n < 10")
    case True
    with digit_char_in[of n] show ?thesis by (subst digits.simps) simp
  next
    case False
    with 1 digit_char_in[of "n mod 10"] show ?thesis by (subst digits.simps) simp
  qed
qed

lemma digits_inj: "digits n = digits k \<Longrightarrow> n = k"
proof (induction n arbitrary: k rule: digits.induct)
  case (1 n)
  show ?case
  proof (cases "n < 10")
    case n: True
    show ?thesis
    proof (cases "k < 10")
      case True
      with n 1(2) show ?thesis by (simp add: digits.simps[of n] digits.simps[of k] digit_char_inj)
    next
      case False
      with n 1(2) digits_nonempty[of "k div 10"] show ?thesis
        by (simp add: digits.simps[of n] digits.simps[of k])
    qed
  next
    case n: False
    show ?thesis
    proof (cases "k < 10")
      case True
      with n 1(2) digits_nonempty[of "n div 10"] show ?thesis
        by (simp add: digits.simps[of n] digits.simps[of k])
    next
      case False
      with n 1(2) have eq: "digits (n div 10) = digits (k div 10)"
        "digit_char (n mod 10) = digit_char (k mod 10)"
        by (simp_all add: digits.simps[of n] digits.simps[of k])
      from 1(1)[OF n eq(1)] have "n div 10 = k div 10" .
      moreover from eq(2) have "n mod 10 = k mod 10" by (intro digit_char_inj) simp_all
      ultimately show ?thesis by (metis div_mult_mod_eq)
    qed
  qed
qed

lemma dquote_notin_key_string: "dquote \<notin> set (key_string k)"
proof (cases k)
  case (Num n)
  with set_digits[of n] show ?thesis by (auto simp: key_string_def dquote_def)
qed (simp_all add: key_string_def dquote_def)

lemma digits_ne_undefined: "digits n \<noteq> ''undefined''"
proof
  assume "digits n = ''undefined''"
  then have "CHR ''u'' \<in> set (digits n)" by simp
  with set_digits[of n] show False by auto
qed

lemma digits_ne_NaN: "digits n \<noteq> ''NaN''"
proof
  assume "digits n = ''NaN''"
  then have "CHR ''N'' \<in> set (digits n)" by simp
  with set_digits[of n] show False by auto
qed

lemma key_string_inj: "key_string k = key_string k' \<Longrightarrow> k = k'"
  using digits_ne_undefined digits_ne_NaN digits_ne_undefined[symmetric] digits_ne_NaN[symmetric]
  by (cases k; cases k') (auto simp: key_string_def dest: digits_inj)

lemma append_delim_inj:
  "d \<notin> set xs \<Longrightarrow> d \<notin> set ys \<Longrightarrow> xs @ d # r = ys @ d # s \<Longrightarrow> xs = ys \<and> r = s"
proof (induction xs arbitrary: ys)
  case Nil
  then show ?case by (cases ys) auto
next
  case (Cons x xs)
  then show ?case by (cases ys) auto
qed

lemma member_inj: "member p @ s = member q @ t \<Longrightarrow> p = q \<and> s = t"
proof -
  assume eq: "member p @ s = member q @ t"
  let ?v = "\<lambda>p. if snd p then ''true'' else ''false''"
  from eq have "key_string (fst p) @ dquote # (CHR '':'' # ?v p @ s)
              = key_string (fst q) @ dquote # (CHR '':'' # ?v q @ t)"
    by (simp add: member_def)
  from append_delim_inj[OF dquote_notin_key_string dquote_notin_key_string this]
  have k: "key_string (fst p) = key_string (fst q)" and v: "?v p @ s = ?v q @ t" by simp_all
  from k have "fst p = fst q" by (rule key_string_inj)
  moreover from v have "snd p = snd q \<and> s = t" by (cases "snd p"; cases "snd q") simp_all
  ultimately show ?thesis by (simp add: prod_eq_iff)
qed

lemma members_inj: "members ps = members qs \<Longrightarrow> ps = qs"
proof (induction ps arbitrary: qs)
  case Nil
  then show ?case by (cases qs) simp_all
next
  case (Cons p ps)
  show ?case
  proof (cases qs)
    case Nil
    with Cons.prems show ?thesis by simp
  next
    case (Cons q qs')
    with Cons.prems have "member p @ members ps = member q @ members qs'" by simp
    from member_inj[OF this] Cons.IH[of qs'] Cons show ?thesis by simp
  qed
qed

lemma stringify_inj: "stringify a = stringify b \<Longrightarrow> a = b"
proof (cases a; cases b)
  fix p ps q qs assume "a = p # ps" "b = q # qs" "stringify a = stringify b"
  then have "member p @ members ps = member q @ members qs" by simp
  from member_inj[OF this] members_inj[of ps qs] \<open>a = p # ps\<close> \<open>b = q # qs\<close>
  show "a = b" by simp
qed (simp_all add: member_def dquote_def)

lemma array_index_Num: "array_index k \<Longrightarrow> k = Num (index_of k)"
  by (cases k) (simp_all add: array_index_def index_of_def)

lemma fst_set_spread_set: "fst ` set (spread_set a k v) = insert k (fst ` set a)"
  by (induction a k v rule: spread_set.induct) auto

lemma index_ordered_spread_set:
  "index_ordered a \<Longrightarrow> array_index k \<Longrightarrow> index_ordered (spread_set a k v)"
proof (induction a k v rule: spread_set.induct)
  case (1 k v)
  then show ?case by (simp add: index_ordered_def)
next
  case (2 k' w ps k v)
  from "2.prems"(1) have tl: "index_ordered ps" and k': "array_index k'"
    and lt: "\<forall>p \<in> set ps. index_of k' < index_of (fst p)"
    by (auto simp: index_ordered_def)
  show ?case
  proof (cases "k' = k")
    case True
    with "2.prems" show ?thesis by (auto simp: index_ordered_def)
  next
    case ne: False
    show ?thesis
    proof (cases "index_of k < index_of k'")
      case True
      with ne "2.prems" k' lt show ?thesis by (force simp: index_ordered_def)
    next
      case False
      from ne array_index_Num[OF k'] array_index_Num[OF "2.prems"(2)]
      have "index_of k \<noteq> index_of k'" by auto
      with False have gt: "index_of k' < index_of k" by simp
      from ne False k' "2.prems"(2) "2.IH"[OF ne _ tl "2.prems"(2)]
      have ih: "index_ordered (spread_set ps k v)" by simp
      have "\<forall>p \<in> set (spread_set ps k v). index_of k' < index_of (fst p)"
      proof
        fix p assume "p \<in> set (spread_set ps k v)"
        then have "fst p \<in> insert k (fst ` set ps)"
          using fst_set_spread_set[of ps k v] by (metis imageI)
        with gt lt show "index_of k' < index_of (fst p)" by auto
      qed
      with ne False k' "2.prems"(2) ih show ?thesis by (auto simp: index_ordered_def)
    qed
  qed
qed

lemma index_ordered_foldl:
  "index_ordered a \<Longrightarrow> \<forall>k \<in> fst ` set bs. array_index k \<Longrightarrow>
     index_ordered (foldl (\<lambda>a (k, v). spread_set a k v) a bs)"
proof (induction bs arbitrary: a)
  case Nil
  then show ?case by simp
next
  case (Cons b bs)
  obtain k v where b: "b = (k, v)" by (cases b)
  with Cons.prems have "index_ordered (spread_set a k v)"
    by (intro index_ordered_spread_set) simp_all
  with Cons b show ?case by simp
qed

lemma index_ordered_build: "\<forall>k \<in> fst ` set bs. array_index k \<Longrightarrow> index_ordered (build bs)"
  unfolding build_def by (rule index_ordered_foldl) (simp_all add: index_ordered_def)

lemma index_ordered_unique:
  "index_ordered a \<Longrightarrow> index_ordered b \<Longrightarrow> get a = get b \<Longrightarrow> a = b"
proof (induction a arbitrary: b)
  case Nil
  from Nil.prems(3) have "map_of b = Map.empty" by (simp add: get_def fun_eq_iff)
  then show ?case by simp
next
  case (Cons p a)
  obtain k v where p: "p = (k, v)" by (cases p)
  from Cons.prems(3) have mo: "map_of ((k, v) # a) = map_of b" by (simp add: get_def p fun_eq_iff)
  show ?case
  proof (cases b)
    case Nil
    with mo have "map_of ((k, v) # a) k = None" by simp
    then show ?thesis by simp
  next
    case (Cons q b')
    obtain k' v' where q: "q = (k', v')" by (cases q)
    from Cons.prems(1) p have ka: "array_index k" "index_ordered a"
      and lta: "\<forall>x \<in> set a. index_of k < index_of (fst x)"
      by (auto simp: index_ordered_def)
    from Cons.prems(2) Cons q have kb: "array_index k'" "index_ordered b'"
      and ltb: "\<forall>x \<in> set b'. index_of k' < index_of (fst x)"
      by (auto simp: index_ordered_def)
    have kk: "k = k'"
    proof (rule ccontr)
      assume ne: "k \<noteq> k'"
      from mo Cons q have "map_of ((k', v') # b') k = Some v" by (metis map_of_Cons_code(2))
      with ne have "map_of b' k = Some v" by (simp split: if_splits)
      then have "(k, v) \<in> set b'" by (rule map_of_SomeD)
      with ltb have 1: "index_of k' < index_of k" by force
      from mo Cons q have "map_of ((k, v) # a) k' = Some v'" by (metis map_of_Cons_code(2))
      with ne have "map_of a k' = Some v'" by (simp split: if_splits)
      then have "(k', v') \<in> set a" by (rule map_of_SomeD)
      with lta have "index_of k < index_of k'" by force
      with 1 show False by simp
    qed
    from mo Cons q kk have vv: "v = v'" by (metis map_of_Cons_code(2) option.inject)
    have nota: "map_of a k = None"
    proof (cases "map_of a k")
      case (Some x)
      then have "(k, x) \<in> set a" by (rule map_of_SomeD)
      with lta show ?thesis by force
    qed simp
    have notb: "map_of b' k = None"
    proof (cases "map_of b' k")
      case (Some x)
      then have "(k, x) \<in> set b'" by (rule map_of_SomeD)
      with ltb kk show ?thesis by force
    qed simp
    have "map_of a x = map_of b' x" for x
    proof (cases "x = k")
      case True
      with nota notb show ?thesis by simp
    next
      case False
      from mo Cons q kk have "map_of ((k, v) # a) x = map_of ((k, v') # b') x" by simp
      with False show ?thesis by simp
    qed
    then have "get a = get b'" by (simp add: get_def fun_eq_iff)
    from Cons.IH[OF ka(2) kb(2) this] Cons p q kk vv show ?thesis by simp
  qed
qed

section \<open>The cache against the cache-free search\<close>

lemma search_Suc_mono: "search n cs a = Some r \<Longrightarrow> search (Suc n) cs a = Some r"
proof (induction n arbitrary: a r)
  case 0
  then show ?case by simp
next
  case (Suc n)
  show ?case
  proof (cases "all_satisfied cs a \<or> some_falsified cs a")
    case True
    with Suc.prems show ?thesis by auto
  next
    case False
    then have ns: "\<not> all_satisfied cs a" "\<not> some_falsified cs a" by auto
    show ?thesis
    proof (cases "unitClause cs a")
      case (Some c)
      with ns Suc.prems Suc.IH show ?thesis
        by (cases "unitLit c a") (simp_all del: search.simps add: search.simps(2)[of "Suc n"] search.simps(2)[of n])
    next
      case None
      show ?thesis
      proof (cases "search n cs (spread_set a (variable cs a) True)")
        case n1: None
        with ns None Suc.prems show ?thesis by simp
      next
        case (Some r1)
        from Suc.IH[OF Some] have s1: "search (Suc n) cs (spread_set a (variable cs a) True) = Some r1" .
        show ?thesis
        proof (cases r1)
          case Unsat
          with ns None Some Suc.prems
          have "search n cs (spread_set a (variable cs a) False) = Some r" by simp
          from Suc.IH[OF this] ns None s1 Unsat show ?thesis
            by (simp del: search.simps add: search.simps(2)[of "Suc n"])
        next
          case (Sat x)
          with ns None Some Suc.prems have "r = Sat x" by simp
          with ns None s1 Sat show ?thesis
            by (simp del: search.simps add: search.simps(2)[of "Suc n"])
        qed
      qed
    qed
  qed
qed

lemma search_mono: "search n cs a = Some r \<Longrightarrow> n \<le> n' \<Longrightarrow> search n' cs a = Some r"
proof -
  assume s: "search n cs a = Some r" and le: "n \<le> n'"
  have "search (n + k) cs a = Some r" for k
    by (induction k) (simp_all del: search.simps add: s search_Suc_mono)
  from this[of "n' - n"] le show ?thesis by simp
qed

lemma search_unique: "search n cs a = Some r \<Longrightarrow> search n' cs a = Some r' \<Longrightarrow> r = r'"
  using search_mono[of n cs a r "max n n'"] search_mono[of n' cs a r' "max n n'"] by simp

lemma memo_consistent_upd:
  "memo_consistent cs m \<Longrightarrow> search n cs a = Some r \<Longrightarrow> memo_consistent cs (m(stringify a \<mapsto> r))"
  unfolding memo_consistent_def by (auto dest: stringify_inj)

lemma dpll_consistent:
  "memo_consistent cs m \<Longrightarrow> dpll n cs a m = Some (res, m') \<Longrightarrow>
     (\<exists>k. search k cs a = Some res) \<and> memo_consistent cs m'"
proof (induction n arbitrary: a m res m')
  case 0
  then show ?case by (simp add: dpll.simps)
next
  case (Suc n)
  from Suc.prems(2) show ?case
  proof (cases rule: dpll_Suc_cases)
    case hit
    with Suc.prems(1) show ?thesis by (auto simp: memo_consistent_def)
  next
    case sat
    then have s: "search (Suc 0) cs a = Some res" by simp
    from memo_consistent_upd[OF Suc.prems(1) s] s sat show ?thesis by blast
  next
    case conflict
    then have s: "search (Suc 0) cs a = Some res" by simp
    from memo_consistent_upd[OF Suc.prems(1) s] s conflict show ?thesis by blast
  next
    case (unit c lit)
    from Suc.IH[OF Suc.prems(1) unit(6)] obtain k where
      k: "search k cs (spread_set a (var_key lit) (0 < lit)) = Some res" and c: "memo_consistent cs m'"
      by auto
    from k unit(2-5) have "search (Suc k) cs a = Some res" by simp
    with c show ?thesis by blast
  next
    case (unit_nan c)
    from Suc.IH[OF Suc.prems(1) unit_nan(6)] obtain k where
      k: "search k cs (spread_set a NaN False) = Some res" and c: "memo_consistent cs m'"
      by auto
    from k unit_nan(2-5) have "search (Suc k) cs a = Some res" by simp
    with c show ?thesis by blast
  next
    case (branch_sat r m1)
    from Suc.IH[OF Suc.prems(1) branch_sat(5)] obtain k where
      k: "search k cs (spread_set a (variable cs a) True) = Some (Sat r)" and c: "memo_consistent cs m1"
      by auto
    from k branch_sat(2-4,6) have s: "search (Suc k) cs a = Some res" by simp
    from memo_consistent_upd[OF c s] s branch_sat(6,7) show ?thesis by blast
  next
    case (branch_unsat m1 m2)
    from Suc.IH[OF Suc.prems(1) branch_unsat(5)] obtain k1 where
      k1: "search k1 cs (spread_set a (variable cs a) True) = Some Unsat" and c1: "memo_consistent cs m1"
      by auto
    from Suc.IH[OF c1 branch_unsat(6)] obtain k2 where
      k2: "search k2 cs (spread_set a (variable cs a) False) = Some res" and c2: "memo_consistent cs m2"
      by auto
    from search_mono[OF k1, of "max k1 k2"] search_mono[OF k2, of "max k1 k2"] branch_unsat(2-4)
    have s: "search (Suc (max k1 k2)) cs a = Some res" by simp
    from memo_consistent_upd[OF c2 s] s branch_unsat(7) show ?thesis by blast
  qed
qed

lemma populated_consistent: "populated cs m \<Longrightarrow> memo_consistent cs m"
proof (induction rule: populated.induct)
  case fresh
  show ?case by (simp add: memo_consistent_def)
next
  case (call m n a res m')
  from dpll_consistent[OF call.IH call.hyps(2)] show ?case by simp
qed

section \<open>A literal 0 and the call stack\<close>

text \<open>
  The literal 0 is neither true nor false once variable 0 is bound to true. On
  \<open>[[0, 0]]\<close> the first branch binds it so, no variable is left for
  \<open>const [variable]\<close>, and the call recurses on the same object for ever: at every
  depth of the stack the result is the overflow.
\<close>

lemma dpll_zero_literal_loops:
  "dpll n [[0, 0]] [(Num 0, True), (Undefined, True)] Map.empty = None"
proof (induction n)
  case 0
  show ?case by (simp add: dpll.simps)
next
  case (Suc n)
  then show ?case
    by (simp add: dpll.simps(2)[of n] Let_def all_satisfied_def some_falsified_def unitClause_def
        variable_def lit_true_def lit_false_def lit_unassigned_def get_def var_key_def
        array_index_def index_of_def)
qed

lemma dpll_zero_literal_overflows: "dpll n [[0, 0]] [] Map.empty = None"
proof (cases n)
  case 0
  then show ?thesis by (simp add: dpll.simps)
next
  case n1: (Suc n1)
  have "dpll n1 [[0, 0]] [(Num 0, True)] Map.empty = None"
  proof (cases n1)
    case 0
    then show ?thesis by (simp add: dpll.simps)
  next
    case (Suc n2)
    with dpll_zero_literal_loops[of n2] show ?thesis
      by (simp add: dpll.simps(2)[of n2] Let_def all_satisfied_def some_falsified_def unitClause_def
          variable_def lit_true_def lit_false_def lit_unassigned_def get_def var_key_def
          array_index_def index_of_def)
  qed
  with n1 show ?thesis
    by (simp add: dpll.simps(2)[of n1] Let_def all_satisfied_def some_falsified_def
        unitClause_def variable_def lit_true_def lit_false_def lit_unassigned_def get_def
        var_key_def array_index_def index_of_def)
qed

section \<open>The claims\<close>

text \<open>
  C1 (completeness and UNSAT correctness). The claim asks that a satisfiable formula is
  never answered with \<open>null\<close>. On the clause set of the source file the solver answers
  \<open>null\<close> at every stack depth that lets it return, although binding all four variables
  to false satisfies every clause.
\<close>

theorem dpll_incomplete_on_clauses:
  "all_satisfied clauses [(Num 1, False), (Num 2, False), (Num 3, False), (Num 4, False)]
   \<and> map_option fst (dpll (n + 5) clauses [] Map.empty) = Some Unsat"
proof -
  have "\<exists>m. dpll 5 clauses [] Map.empty = Some (Unsat, m)"
    by (simp add: clauses_def dpll_eval)
  then obtain m5 where m5: "dpll 5 clauses [] Map.empty = Some (Unsat, m5)" ..
  from dpll_mono[OF m5, of "n + 5"]
  have "map_option fst (dpll (n + 5) clauses [] Map.empty) = Some Unsat" by simp
  moreover have "all_satisfied clauses [(Num 1, False), (Num 2, False), (Num 3, False), (Num 4, False)]"
    by (simp add: clauses_def all_satisfied_def lit_true_def get_def var_key_def)
  ultimately show ?thesis by simp
qed

text \<open>
  C2 (soundness). Started with an empty cache, whenever \<open>dpll\<close> returns an assignment
  object, every clause of the formula has a literal whose variable that object binds with
  matching polarity.
\<close>

theorem dpll_soundness:
  "dpll n cs a Map.empty = Some (Sat r, m') \<Longrightarrow>
     \<forall>c \<in> set cs. \<exists>lit \<in> set c. get r (Num (nat \<bar>lit\<bar>)) = Some (0 < lit)"
proof -
  assume run: "dpll n cs a Map.empty = Some (Sat r, m')"
  have "memo_sound cs Map.empty" by (simp add: memo_sound_def)
  from dpll_sound_inv[OF this run] have "all_satisfied cs r" by simp
  then show ?thesis
    by (simp add: all_satisfied_def list_all_iff list_ex_iff lit_true_def var_key_def)
qed

theorem dpll_soundness_witness:
  "dpll 2 [[1]] [] Map.empty =
     Some (Sat [(Num 1, True)], [stringify [(Num 1, True)] \<mapsto> Sat [(Num 1, True)]])
   \<and> get [(Num 1, True)] (Num (nat \<bar>1\<bar>)) = Some (0 < (1::int))"
proof -
  have run: "dpll 2 [[1]] [] Map.empty =
     Some (Sat [(Num 1, True)], [stringify [(Num 1, True)] \<mapsto> Sat [(Num 1, True)]])"
    by (simp add: dpll_eval)
  from dpll_soundness[OF run] run show ?thesis by simp
qed

text \<open>
  C3 (unit propagation only on genuine unit clauses). The test of the source counts the
  unassigned literals of a clause and nothing else. With variable 1 bound to true, the
  clause \<open>[1, 2]\<close> is already satisfied, yet it is selected as the unit clause and its
  literal 2 is forced; the call then answers \<open>null\<close> although binding 2 to false
  satisfies both clauses.
\<close>

theorem unit_propagation_on_satisfied_clause:
  "unitClause [[1, 2], [-1, -2]] [(Num 1, True)] = Some [1, 2]
   \<and> lit_true [(Num 1, True)] 1
   \<and> unitLit [1, 2] [(Num 1, True)] = Some 2
   \<and> map_option fst (dpll (n + 3) [[1, 2], [-1, -2]] [(Num 1, True)] Map.empty) = Some Unsat
   \<and> all_satisfied [[1, 2], [-1, -2]] [(Num 1, True), (Num 2, False)]"
proof -
  have "\<exists>m. dpll 3 [[1, 2], [-1, -2]] [(Num 1, True)] Map.empty = Some (Unsat, m)"
    by (simp add: dpll_eval)
  then obtain m3 where m3: "dpll 3 [[1, 2], [-1, -2]] [(Num 1, True)] Map.empty = Some (Unsat, m3)" ..
  from dpll_mono[OF m3, of "n + 3"]
  have "map_option fst (dpll (n + 3) [[1, 2], [-1, -2]] [(Num 1, True)] Map.empty) = Some Unsat"
    by simp
  then show ?thesis
    by (simp add: unitClause_def unitLit_def all_satisfied_def lit_true_def lit_unassigned_def
        get_def var_key_def)
qed

text \<open>
  C4 (the outcome does not depend on the cache), as the code behaves: the cache is keyed
  by the assignment alone. After a call on \<open>[[1],[-1]]\<close> has stored \<open>null\<close> under the key
  of \<open>{1: true}\<close>, a call on \<open>[[1]]\<close> with the empty assignment returns \<open>null\<close>, while
  with an empty cache it returns \<open>{1: true}\<close>.
\<close>

theorem dpll_cache_contamination:
  "dpll 3 [[1], [-1]] [] Map.empty = Some (Unsat, [stringify [(Num 1, True)] \<mapsto> Unsat])
   \<and> dpll 3 [[1]] [] [stringify [(Num 1, True)] \<mapsto> Unsat]
       = Some (Unsat, [stringify [(Num 1, True)] \<mapsto> Unsat])
   \<and> dpll 3 [[1]] [] Map.empty
       = Some (Sat [(Num 1, True)], [stringify [(Num 1, True)] \<mapsto> Sat [(Num 1, True)]])"
  by (simp add: dpll_eval)

text \<open>
  C4, amended: for a fixed clause list and assignment, a call that starts with a cache left
  behind by earlier calls on the same clause list and a call that starts with an empty cache
  return the same outcome.
\<close>

theorem dpll_cache_transparent:
  "populated cs m \<Longrightarrow> dpll n cs a m = Some (res, m1) \<Longrightarrow>
     dpll n' cs a Map.empty = Some (res', m2) \<Longrightarrow> res = res'"
proof -
  assume p: "populated cs m" and r1: "dpll n cs a m = Some (res, m1)"
    and r2: "dpll n' cs a Map.empty = Some (res', m2)"
  from dpll_consistent[OF populated_consistent[OF p] r1]
  obtain k where k: "search k cs a = Some res" by auto
  from dpll_consistent[OF populated_consistent[OF populated.fresh] r2]
  obtain k' where k': "search k' cs a = Some res'" by auto
  from search_unique[OF k k'] show ?thesis .
qed

theorem dpll_cache_transparent_witness:
  "populated [[1, 2], [-1, -2]] [stringify [(Num 1, True), (Num 2, True)] \<mapsto> Unsat]
   \<and> map_option fst (dpll 4 [[1, 2], [-1, -2]] [] [stringify [(Num 1, True), (Num 2, True)] \<mapsto> Unsat])
       = Some (Sat [(Num 1, False), (Num 2, True)])
   \<and> map_option fst (dpll 4 [[1, 2], [-1, -2]] [] Map.empty)
       = Some (Sat [(Num 1, False), (Num 2, True)])"
proof -
  let ?cs = "[[1, 2], [-1, -2]] :: formula"
  let ?m = "[stringify [(Num 1, True), (Num 2, True)] \<mapsto> Unsat]"
  have "dpll 3 ?cs [(Num 1, True)] Map.empty = Some (Unsat, ?m)"
    by (simp add: dpll_eval)
  from populated.call[OF populated.fresh this] have p: "populated ?cs ?m" .
  have "\<exists>m1. dpll 4 ?cs [] ?m = Some (Sat [(Num 1, False), (Num 2, True)], m1)"
    by (simp add: dpll_eval)
  then obtain m1 where r1: "dpll 4 ?cs [] ?m = Some (Sat [(Num 1, False), (Num 2, True)], m1)" ..
  have "\<exists>m2. \<exists>r. dpll 4 ?cs [] Map.empty = Some (r, m2)"
    by (simp add: dpll_eval)
  then obtain m2 r where r2: "dpll 4 ?cs [] Map.empty = Some (r, m2)" by blast
  from dpll_cache_transparent[OF p r1 r2] p r1 r2 show ?thesis by simp
qed

text \<open>
  C5 (scenario 3). On the clause set \<open>[[1,-3,4],[-1,2],[-2,3],[-4]]\<close> with the empty
  assignment and an empty cache the solver never returns an assignment: from stack depth 5
  on it returns \<open>null\<close>.
\<close>

theorem dpll_never_sat_on_clauses:
  "map_option fst (dpll (n + 5) clauses [] Map.empty) = Some Unsat
   \<and> dpll n clauses [] Map.empty \<noteq> Some (Sat r, m')"
proof -
  have "\<exists>m. dpll 5 clauses [] Map.empty = Some (Unsat, m)"
    by (simp add: clauses_def dpll_eval)
  then obtain m5 where m5: "dpll 5 clauses [] Map.empty = Some (Unsat, m5)" ..
  have big: "dpll (n + 5) clauses [] Map.empty = Some (Unsat, m5)" for n
    using dpll_mono[OF m5, of "n + 5"] by simp
  have "dpll n clauses [] Map.empty \<noteq> Some (Sat r, m')"
  proof
    assume "dpll n clauses [] Map.empty = Some (Sat r, m')"
    from dpll_add_mono[OF this, of 5] big[of n] show False by simp
  qed
  with big[of n] show ?thesis by simp
qed

text \<open>
  C6 (empty clause, empty formula). With the empty assignment and a cache that has no
  entry for it (the empty cache of a first call in particular), a formula that contains an
  empty clause is answered \<open>null\<close> by the first call itself, whatever its other clauses
  are, and the formula without clauses is answered with the empty assignment; in both
  cases the only cache entry written is the one for the key \<open>{}\<close>.
\<close>

theorem dpll_empty_clause_empty_formula:
  "m ''{}'' = None \<Longrightarrow>
     ([] \<in> set cs \<longrightarrow> dpll (Suc n) cs [] m = Some (Unsat, m(''{}'' \<mapsto> Unsat)))
     \<and> dpll (Suc n) [] [] m = Some (Sat [], m(''{}'' \<mapsto> Sat []))"
proof (intro conjI impI)
  assume miss: "m ''{}'' = None" and e: "[] \<in> set cs"
  then have "\<not> all_satisfied cs []" "some_falsified cs []"
    by (auto simp: all_satisfied_def some_falsified_def list_all_iff list_ex_iff
        intro!: bexI[of _ "[]"])
  with miss show "dpll (Suc n) cs [] m = Some (Unsat, m(''{}'' \<mapsto> Unsat))"
    using dpll_conflict[of m "[]" cs n] by simp
next
  assume "m ''{}'' = None"
  then show "dpll (Suc n) [] [] m = Some (Sat [], m(''{}'' \<mapsto> Sat []))"
    using dpll_sat[of m "[]" "[]" n] by (simp add: all_satisfied_def)
qed

theorem dpll_empty_clause_empty_formula_witness:
  "(Map.empty :: memo) ''{}'' = None \<and> [] \<in> set [[1, 2], [], [-1]]
   \<and> dpll (Suc 0) [[1, 2], [], [-1]] [] Map.empty = Some (Unsat, [''{}'' \<mapsto> Unsat])
   \<and> dpll (Suc 0) [] [] Map.empty = Some (Sat [], [''{}'' \<mapsto> Sat []])"
  using dpll_empty_clause_empty_formula[of Map.empty "[[1, 2], [], [-1]]" 0] by simp

text \<open>
  C7 (invalid literals), as the code behaves: there is no validation. On the clause list
  \<open>[[0]]\<close> the solver returns normally, with the assignment that binds variable 0 to
  false, and has written a cache entry under the key of that assignment.
\<close>

theorem dpll_accepts_literal_zero:
  "dpll 2 [[0]] [] Map.empty =
     Some (Sat [(Num 0, False)], [stringify [(Num 0, False)] \<mapsto> Sat [(Num 0, False)]])"
  by (simp add: dpll_eval)

text \<open>
  C7, amended: for every clause list, also one with a literal 0, a call that returns has
  returned an outcome (an assignment or \<open>null\<close>) and that outcome is stored in the cache
  under the key of some assignment.
\<close>

theorem dpll_returns_stored_outcome:
  "dpll n cs a m = Some (res, m') \<Longrightarrow> \<exists>a'. m' (stringify a') = Some res"
  by (rule dpll_stores_outcome)

theorem dpll_returns_stored_outcome_witness:
  "dpll 2 [[0]] [] Map.empty =
     Some (Sat [(Num 0, False)], [stringify [(Num 0, False)] \<mapsto> Sat [(Num 0, False)]])
   \<and> (\<exists>a'. [stringify [(Num 0, False)] \<mapsto> Sat [(Num 0, False)]] (stringify a') = Some (Sat [(Num 0, False)]))"
proof -
  have run: "dpll 2 [[0]] [] Map.empty =
     Some (Sat [(Num 0, False)], [stringify [(Num 0, False)] \<mapsto> Sat [(Num 0, False)]])"
    by (simp add: dpll_eval)
  from dpll_returns_stored_outcome[OF run] run show ?thesis by simp
qed

text \<open>
  C8 (termination). On a formula whose literals are all nonzero, for every assignment and
  every cache, \<open>dpll\<close> returns as soon as the stack admits one call more than there are
  distinct formula variables left unbound, and it returns the same result at every such
  depth; that number is at most the number of distinct variables of the formula. A call
  that neither finds the formula satisfied nor finds a falsified clause recurses on an
  assignment with exactly one more binding, in unit propagation and in both branches.
\<close>

theorem dpll_terminates:
  "0 \<notin> set (concat cs) \<Longrightarrow>
     (\<exists>res m'. \<forall>n > length (unbound cs a). dpll n cs a m = Some (res, m'))
     \<and> length (unbound cs a) \<le> card ((\<lambda>lit. nat \<bar>lit\<bar>) ` set (concat cs))
     \<and> (\<not> all_satisfied cs a \<and> \<not> some_falsified cs a \<longrightarrow>
          (\<forall>c. unitClause cs a = Some c \<longrightarrow>
             (\<exists>lit. unitLit c a = Some lit
               \<and> length (spread_set a (var_key lit) (0 < lit)) = Suc (length a)))
          \<and> (unitClause cs a = None \<longrightarrow>
               (\<forall>b. length (spread_set a (variable cs a) b) = Suc (length a))))"
proof (intro conjI impI allI)
  assume "0 \<notin> set (concat cs)"
  then show "\<exists>res m'. \<forall>n > length (unbound cs a). dpll n cs a m = Some (res, m')"
    by (rule dpll_returns)
next
  have "set (unbound cs a) \<subseteq> (\<lambda>lit. nat \<bar>lit\<bar>) ` set (concat cs)"
    by (auto simp: set_unbound)
  then show "length (unbound cs a) \<le> card ((\<lambda>lit. nat \<bar>lit\<bar>) ` set (concat cs))"
    unfolding length_unbound by (intro card_mono) simp_all
next
  fix c assume "unitClause cs a = Some c"
  from unitClause_unitLit[OF this] obtain lit where
    lit: "unitLit c a = Some lit" "lit_unassigned a lit" by auto
  from lit(2) have "length (spread_set a (var_key lit) (0 < lit)) = Suc (length a)"
    by (intro length_spread_set_new) (simp add: lit_unassigned_def)
  with lit(1) show "\<exists>lit. unitLit c a = Some lit
      \<and> length (spread_set a (var_key lit) (0 < lit)) = Suc (length a)" by blast
next
  fix b
  assume nz: "0 \<notin> set (concat cs)"
    and ns: "\<not> all_satisfied cs a \<and> \<not> some_falsified cs a"
  from variable_unbound[OF nz] ns obtain v where
    v: "variable cs a = Num v" "v \<in> set (unbound cs a)" by auto
  from v(2) have "get a (Num v) = None" by (simp add: set_unbound)
  with v(1) show "length (spread_set a (variable cs a) b) = Suc (length a)"
    by (simp add: length_spread_set_new)
qed

theorem dpll_terminates_witness:
  "0 \<notin> set (concat clauses) \<and> length (unbound clauses [(Num 4, False)]) = 3
   \<and> (\<exists>res m'. dpll 4 clauses [(Num 4, False)] Map.empty = Some (res, m'))
   \<and> \<not> all_satisfied clauses [(Num 4, False)] \<and> \<not> some_falsified clauses [(Num 4, False)]
   \<and> unitClause clauses [(Num 4, False)] = None
   \<and> length (spread_set [(Num 4, False)] (variable clauses [(Num 4, False)]) True) = 2"
proof -
  have nz: "0 \<notin> set (concat clauses)" by (simp add: clauses_def)
  have len: "length (unbound clauses [(Num 4, False)]) = 3"
    by (simp add: clauses_def unbound_def get_def)
  have st: "\<not> all_satisfied clauses [(Num 4, False)]" "\<not> some_falsified clauses [(Num 4, False)]"
    "unitClause clauses [(Num 4, False)] = None"
    by (simp_all add: clauses_def all_satisfied_def some_falsified_def unitClause_def
        lit_true_def lit_false_def lit_unassigned_def get_def var_key_def)
  from dpll_terminates[OF nz, of "[(Num 4, False)]" Map.empty] len nz st show ?thesis by auto
qed

text \<open>
  C9 (the cache key is independent of the order of insertion), as the code behaves:
  \<open>JSON.stringify\<close> enumerates keys that are not array indices in the order of their
  creation. The clause lists \<open>[[4294967295],[4294967296]]\<close> and
  \<open>[[4294967296],[4294967295]]\<close> lead to assignments that are equal as mappings and have
  different keys.
\<close>

theorem stringify_depends_on_insertion_order:
  "map_option fst (dpll 3 [[4294967295], [4294967296]] [] Map.empty)
     = Some (Sat [(Num 4294967295, True), (Num 4294967296, True)])
   \<and> map_option fst (dpll 3 [[4294967296], [4294967295]] [] Map.empty)
     = Some (Sat [(Num 4294967296, True), (Num 4294967295, True)])
   \<and> get [(Num 4294967295, True), (Num 4294967296, True)]
     = get [(Num 4294967296, True), (Num 4294967295, True)]
   \<and> stringify [(Num 4294967295, True), (Num 4294967296, True)]
     \<noteq> stringify [(Num 4294967296, True), (Num 4294967295, True)]"
proof -
  have "get [(Num 4294967295, True), (Num 4294967296, True)]
     = get [(Num 4294967296, True), (Num 4294967295, True)]"
    by (auto simp: get_def fun_eq_iff)
  moreover have "stringify [(Num 4294967295, True), (Num 4294967296, True)]
     \<noteq> stringify [(Num 4294967296, True), (Num 4294967295, True)]"
  proof
    assume "stringify [(Num 4294967295, True), (Num 4294967296, True)]
      = stringify [(Num 4294967296, True), (Num 4294967295, True)]"
    from stringify_inj[OF this] show False by simp
  qed
  moreover have "map_option fst (dpll 3 [[4294967295], [4294967296]] [] Map.empty)
     = Some (Sat [(Num 4294967295, True), (Num 4294967296, True)])"
    by (simp add: dpll_eval)
  moreover have "map_option fst (dpll 3 [[4294967296], [4294967295]] [] Map.empty)
     = Some (Sat [(Num 4294967296, True), (Num 4294967295, True)])"
    by (simp add: dpll_eval)
  ultimately show ?thesis by blast
qed

text \<open>
  C9, amended: when every variable index is an array index (below \<open>2^32 - 1\<close>), two
  assignments that are equal as mappings have the same key, in whatever order their
  bindings were added.
\<close>

theorem stringify_canonical_on_array_indices:
  "\<forall>k \<in> fst ` set bs \<union> fst ` set bs'. array_index k \<Longrightarrow> get (build bs) = get (build bs') \<Longrightarrow>
     stringify (build bs) = stringify (build bs')"
proof -
  assume idx: "\<forall>k \<in> fst ` set bs \<union> fst ` set bs'. array_index k"
    and eq: "get (build bs) = get (build bs')"
  from idx have "index_ordered (build bs)" "index_ordered (build bs')"
    by (auto intro!: index_ordered_build)
  from index_ordered_unique[OF this eq] show ?thesis by simp
qed

theorem stringify_canonical_on_array_indices_witness:
  "array_index (Num 7) \<and> array_index (Num 2)
   \<and> get (build [(Num 7, True), (Num 2, False)]) (Num 7) = get (build [(Num 2, False), (Num 7, True)]) (Num 7)
   \<and> stringify (build [(Num 7, True), (Num 2, False)]) = stringify (build [(Num 2, False), (Num 7, True)])"
proof -
  let ?bs = "[(Num 7, True), (Num 2, False)]" and ?bs' = "[(Num 2, False), (Num 7, True)]"
  have idx: "\<forall>k \<in> fst ` set ?bs \<union> fst ` set ?bs'. array_index k"
    by (simp add: array_index_def)
  have eq: "get (build ?bs) = get (build ?bs')"
    by (simp add: build_def array_index_def index_of_def get_def)
  from stringify_canonical_on_array_indices[OF idx eq] idx eq show ?thesis by simp
qed

text \<open>
  C10 (a cached \<open>null\<close> is replayed). When the cache maps the key of the current
  assignment to \<open>null\<close>, the call returns \<open>null\<close> from the lookup and leaves the cache
  as it is, whatever the formula.
\<close>

theorem dpll_replays_cached_unsat:
  "m (stringify a) = Some Unsat \<Longrightarrow> dpll (Suc n) cs a m = Some (Unsat, m)"
  by (rule dpll_hit)

theorem dpll_replays_cached_unsat_witness:
  "[''{}'' \<mapsto> Unsat] (stringify []) = Some Unsat
   \<and> dpll (Suc 0) [[1]] [] [''{}'' \<mapsto> Unsat] = Some (Unsat, [''{}'' \<mapsto> Unsat])"
  using dpll_replays_cached_unsat[of "[''{}'' \<mapsto> Unsat]" "[]" 0 "[[1]]"] by simp

end
